theory Spec2Isabelle
  imports Complex_Main "HOL-Library.Log_Nat" "HOL-Library.Multiset"
begin

section \<open>Tensor entries: IEEE 754 binary32 values\<close>

text \<open>
  \<^verbatim>\<open>torch.zeros(num_classes, num_classes)\<close> allocates a tensor of the default dtype,
  float32, and \<^verbatim>\<open>.float()\<close> asks for float32 explicitly. An entry is therefore a
  binary32 value: a finite number (a rational, with positive zero \<open>Num 0\<close>), negative
  zero, an infinity or NaN. Arithmetic rounds to nearest, ties to even, as the hardware
  does; no Python exception is raised by a division by zero.
\<close>

datatype f32 = Num rat | NZero | PInf | NInf | NaN

definition pow2 :: "int \<Rightarrow> rat" where
  "pow2 k = (if 0 \<le> k then 2 ^ nat k else 1 / 2 ^ nat (- k))"

definition ilog2 :: "rat \<Rightarrow> int" where
  \<comment> \<open>\<open>\<lfloor>log\<^sub>2 a\<rfloor>\<close> for a positive rational\<close>
  "ilog2 a = (if 1 \<le> a then bitlen \<lfloor>a\<rfloor> - 1 else - bitlen (\<lceil>1 / a\<rceil> - 1))"

definition rne :: "rat \<Rightarrow> int" where
  \<comment> \<open>round to the nearest integer, ties to the even one\<close>
  "rne x = (let f = \<lfloor>x\<rfloor>; d = x - of_int f in
     if d < 1 / 2 then f else if 1 / 2 < d then f + 1
     else if even f then f else f + 1)"

definition round_mag :: "rat \<Rightarrow> rat" where
  \<comment> \<open>a positive rational rounded to 24 significant bits, exponents from -126
      (subnormals below), before the overflow check\<close>
  "round_mag a =
     (let e = max (ilog2 a) (- 126);
          u = pow2 (e - 23)
      in of_int (rne (a / u)) * u)"

definition f32_round :: "rat \<Rightarrow> f32" where
  \<comment> \<open>the binary32 value nearest to a rational: overflow to an infinity, underflow
      to a signed zero\<close>
  "f32_round x =
     (if x = 0 then Num 0
      else let r = round_mag \<bar>x\<bar>
           in if r = 0 then (if x < 0 then NZero else Num 0)
              else if 2 ^ 128 \<le> r then (if x < 0 then NInf else PInf)
              else Num (if x < 0 then - r else r))"

definition is_zero :: "f32 \<Rightarrow> bool" where
  \<comment> \<open>\<^verbatim>\<open>x == 0\<close>: true of both zeros, false of NaN\<close>
  "is_zero x = (x = Num 0 \<or> x = NZero)"

definition is_inf :: "f32 \<Rightarrow> bool" where
  "is_inf x = (x = PInf \<or> x = NInf)"

fun fsign :: "f32 \<Rightarrow> bool" where
  "fsign (Num q) = (q < 0)"
| "fsign NZero = True"
| "fsign NInf = True"
| "fsign PInf = False"
| "fsign NaN = False"

fun fval :: "f32 \<Rightarrow> rat" where
  "fval (Num q) = q"
| "fval _ = 0"

definition signed_inf :: "bool \<Rightarrow> f32" where
  "signed_inf neg = (if neg then NInf else PInf)"

definition signed_zero :: "bool \<Rightarrow> f32" where
  "signed_zero neg = (if neg then NZero else Num 0)"

definition fadd :: "f32 \<Rightarrow> f32 \<Rightarrow> f32" where
  "fadd x y =
     (if x = NaN \<or> y = NaN then NaN
      else if is_inf x then (if is_inf y \<and> x \<noteq> y then NaN else x)
      else if is_inf y then y
      else if x = NZero then y
      else if y = NZero then x
      else if fval x + fval y = 0 then Num 0
      else f32_round (fval x + fval y))"

definition fdiv :: "f32 \<Rightarrow> f32 \<Rightarrow> f32" where
  "fdiv x y =
     (if x = NaN \<or> y = NaN then NaN
      else if is_inf x then (if is_inf y then NaN else signed_inf (fsign x \<noteq> fsign y))
      else if is_inf y then signed_zero (fsign x \<noteq> fsign y)
      else if is_zero y then (if is_zero x then NaN else signed_inf (fsign x \<noteq> fsign y))
      else if is_zero x then signed_zero (fsign x \<noteq> fsign y)
      else f32_round (fval x / fval y))"

section \<open>Tensors and indexing\<close>

type_synonym matrix = "f32 list list"

datatype py_error = IndexError

definition zeros :: "nat \<Rightarrow> matrix" where
  \<comment> \<open>\<^verbatim>\<open>torch.zeros(n, n)\<close>\<close>
  "zeros n = replicate n (replicate n (Num 0))"

definition index :: "nat \<Rightarrow> int \<Rightarrow> nat option" where
  \<comment> \<open>an index into a dimension of size \<open>n\<close>: negative indices count from the end,
      anything else out of range raises IndexError\<close>
  "index n i = (if 0 \<le> i \<and> i < int n then Some (nat i)
                else if - int n \<le> i \<and> i < 0 then Some (nat (int n + i))
                else None)"

definition cell :: "matrix \<Rightarrow> nat \<Rightarrow> nat \<Rightarrow> f32" where
  "cell M r c = M ! r ! c"

definition iadd_at :: "matrix \<Rightarrow> nat \<Rightarrow> nat \<Rightarrow> f32 \<Rightarrow> matrix" where
  \<comment> \<open>\<^verbatim>\<open>M[r, c] += v\<close> at resolved indices\<close>
  "iadd_at M r c v = M[r := (M ! r)[c := fadd (M ! r ! c) v]]"

definition row_sum :: "f32 list \<Rightarrow> f32" where
  \<comment> \<open>one entry of \<^verbatim>\<open>M.sum(1)\<close>, added from the left\<close>
  "row_sum r = foldl fadd (Num 0) r"

definition row_normalize :: "matrix \<Rightarrow> matrix" where
  \<comment> \<open>\<^verbatim>\<open>M / M.sum(1).unsqueeze(1)\<close>: a fresh tensor\<close>
  "row_normalize M = map (\<lambda>r. map (\<lambda>x. fdiv x (row_sum r)) r) M"

section \<open>get_confusion_matrix\<close>

fun cm_loop :: "nat \<Rightarrow> (int \<times> int) list \<Rightarrow> matrix \<times> matrix \<Rightarrow> py_error + matrix \<times> matrix" where
  "cm_loop n [] acc = Inr acc"
| "cm_loop n ((t, p) # rest) (org, org_by) =
     (case (index n p, index n t) of
        (Some pr, Some tc) \<Rightarrow>
          cm_loop n rest (iadd_at org pr tc (Num 1), iadd_at org_by tc pr (Num 1))
      | _ \<Rightarrow> Inl IndexError)"

definition get_confusion_matrix ::
  "nat \<Rightarrow> int list \<Rightarrow> int list \<Rightarrow> py_error + matrix \<times> matrix \<times> matrix" where
  "get_confusion_matrix num_classes targets biases =
     (case cm_loop num_classes (zip targets biases) (zeros num_classes, zeros num_classes) of
        Inl e \<Rightarrow> Inl e
      | Inr (confusion_matrix_org, confusion_matrix_org_by) \<Rightarrow>
          Inr (confusion_matrix_org,
               row_normalize confusion_matrix_org,
               row_normalize confusion_matrix_org_by))"

section \<open>get_unsup_confusion_matrix\<close>

fun unsup_loop ::
  "nat \<Rightarrow> (int \<times> int \<times> f32) list \<Rightarrow> matrix \<times> matrix \<Rightarrow> py_error + matrix \<times> matrix" where
  "unsup_loop n [] acc = Inr acc"
| "unsup_loop n ((t, p, m) # rest) (org, cnt) =
     (case (index n p, index n t) of
        (Some pr, Some tc) \<Rightarrow>
          unsup_loop n rest (iadd_at org pr tc m, iadd_at cnt pr tc (Num 1))
      | _ \<Rightarrow> Inl IndexError)"

definition zip3 :: "'a list \<Rightarrow> 'b list \<Rightarrow> 'c list \<Rightarrow> ('a \<times> 'b \<times> 'c) list" where
  "zip3 xs ys zs = zip xs (zip ys zs)"

definition eq_zero_mask :: "matrix \<Rightarrow> bool list list" where
  \<comment> \<open>\<^verbatim>\<open>M == 0\<close>\<close>
  "eq_zero_mask M = map (map is_zero) M"

definition masked_fill :: "matrix \<Rightarrow> bool list list \<Rightarrow> f32 \<Rightarrow> matrix" where
  \<comment> \<open>\<^verbatim>\<open>M[mask] = v\<close>\<close>
  "masked_fill M msk v = map2 (map2 (\<lambda>x b. if b then v else x)) M msk"

definition mat_div :: "matrix \<Rightarrow> matrix \<Rightarrow> matrix" where
  \<comment> \<open>elementwise \<^verbatim>\<open>A / B\<close>\<close>
  "mat_div A B = map2 (map2 fdiv) A B"

definition mat_recip :: "matrix \<Rightarrow> matrix" where
  \<comment> \<open>\<^verbatim>\<open>1 / A\<close>\<close>
  "mat_recip A = map (map (fdiv (Num 1))) A"

definition surprise_of :: "matrix \<Rightarrow> matrix \<Rightarrow> matrix" where
  \<comment> \<open>the statements after the loop, up to the last masked write\<close>
  "surprise_of org cnt =
     (let zero_idx = eq_zero_mask org;
          cnt1 = masked_fill cnt (eq_zero_mask cnt) (Num 1);
          org1 = mat_div org cnt1;
          org2 = masked_fill org1 zero_idx (Num 1);
          org3 = mat_recip org2
      in masked_fill org3 zero_idx (Num 0))"

definition get_unsup_confusion_matrix ::
  "nat \<Rightarrow> int list \<Rightarrow> int list \<Rightarrow> f32 list \<Rightarrow> py_error + matrix \<times> matrix" where
  "get_unsup_confusion_matrix num_classes targets biases marginals =
     (case unsup_loop num_classes (zip3 targets biases marginals)
             (zeros num_classes, zeros num_classes) of
        Inl e \<Rightarrow> Inl e
      | Inr (org, cnt) \<Rightarrow>
          (let confusion_matrix_org = surprise_of org cnt
           in Inr (confusion_matrix_org, row_normalize confusion_matrix_org)))"

section \<open>Notions used in the statements and proofs\<close>

definition square :: "nat \<Rightarrow> matrix \<Rightarrow> bool" where
  "square n M = (length M = n \<and> (\<forall>r \<in> set M. length r = n))"

definition valid :: "nat \<Rightarrow> int \<Rightarrow> bool" where
  "valid n i = (- int n \<le> i \<and> i < int n)"

definition norm_index :: "nat \<Rightarrow> int \<Rightarrow> nat" where
  "norm_index n i = (if 0 \<le> i then nat i else nat (int n + i))"

fun accum :: "matrix \<Rightarrow> (nat \<times> nat \<times> f32) list \<Rightarrow> matrix" where
  "accum M [] = M"
| "accum M ((r, c, v) # us) = accum (iadd_at M r c v) us"

definition labels_ok :: "nat \<Rightarrow> (int \<times> int) list \<Rightarrow> bool" where
  "labels_ok n xs = (\<forall>(t, p) \<in> set xs. valid n p \<and> valid n t)"

definition labels_ok3 :: "nat \<Rightarrow> (int \<times> int \<times> f32) list \<Rightarrow> bool" where
  "labels_ok3 n xs = (\<forall>(t, p, m) \<in> set xs. valid n p \<and> valid n t)"

definition sup_updates :: "nat \<Rightarrow> (int \<times> int) list \<Rightarrow> (nat \<times> nat \<times> f32) list" where
  "sup_updates n xs = map (\<lambda>(t, p). (norm_index n p, norm_index n t, Num 1)) xs"

definition sup_updates_by :: "nat \<Rightarrow> (int \<times> int) list \<Rightarrow> (nat \<times> nat \<times> f32) list" where
  "sup_updates_by n xs = map (\<lambda>(t, p). (norm_index n t, norm_index n p, Num 1)) xs"

definition unsup_updates :: "nat \<Rightarrow> (int \<times> int \<times> f32) list \<Rightarrow> (nat \<times> nat \<times> f32) list" where
  "unsup_updates n xs = map (\<lambda>(t, p, m). (norm_index n p, norm_index n t, m)) xs"

definition cnt_updates :: "nat \<Rightarrow> (int \<times> int \<times> f32) list \<Rightarrow> (nat \<times> nat \<times> f32) list" where
  "cnt_updates n xs = map (\<lambda>(t, p, m). (norm_index n p, norm_index n t, Num 1)) xs"

definition cm_raw :: "py_error + matrix \<times> matrix \<times> matrix \<Rightarrow> py_error + matrix" where
  "cm_raw = map_sum id fst"

definition cm_normalized :: "py_error + matrix \<times> matrix \<times> matrix \<Rightarrow> py_error + matrix" where
  "cm_normalized = map_sum id (fst \<circ> snd)"

definition cm_normalized_by :: "py_error + matrix \<times> matrix \<times> matrix \<Rightarrow> py_error + matrix" where
  "cm_normalized_by = map_sum id (snd \<circ> snd)"

section \<open>Properties\<close>

lemma index_eq: "index n i = (if valid n i then Some (norm_index n i) else None)"
  by (auto simp: index_def valid_def norm_index_def)

lemma norm_index_less: "valid n i \<Longrightarrow> norm_index n i < n"
  by (auto simp: valid_def norm_index_def)

lemma square_zeros: "square n (zeros n)"
  by (simp add: square_def zeros_def)

lemma cell_zeros: "r < n \<Longrightarrow> c < n \<Longrightarrow> cell (zeros n) r c = Num 0"
  by (simp add: cell_def zeros_def)

lemma square_iadd_at:
  assumes "square n M" shows "square n (iadd_at M r c v)"
proof (cases "r < length M")
  case True
  with assms show ?thesis
    by (auto simp: square_def iadd_at_def dest!: set_update_subset_insert [THEN subsetD])
next
  case False
  with assms show ?thesis by (simp add: iadd_at_def list_update_beyond)
qed

lemma cell_iadd_at:
  "square n M \<Longrightarrow> r < n \<Longrightarrow> c < n \<Longrightarrow>
   cell (iadd_at M r c v) r' c' = (if r' = r \<and> c' = c then fadd (cell M r c) v else cell M r' c')"
  by (auto simp: square_def iadd_at_def cell_def nth_list_update)

lemma square_accum: "square n M \<Longrightarrow> square n (accum M us)"
  by (induction M us rule: accum.induct) (auto simp: square_iadd_at)

lemma cell_accum:
  "square n M \<Longrightarrow> \<forall>(r', c', v) \<in> set us. r' < n \<and> c' < n \<Longrightarrow>
   cell (accum M us) r c =
     foldl fadd (cell M r c) (map (\<lambda>(r', c', v). v) (filter (\<lambda>(r', c', v). r' = r \<and> c' = c) us))"
proof (induction M us rule: accum.induct)
  case (1 M)
  then show ?case by simp
next
  case (2 M r0 c0 v us)
  then show ?case
    by (simp add: square_iadd_at cell_iadd_at)
qed

lemma matrix_eqI:
  assumes "square n A" "square n B" "\<And>r c. r < n \<Longrightarrow> c < n \<Longrightarrow> cell A r c = cell B r c"
  shows "A = B"
proof (rule nth_equalityI)
  show "length A = length B" using assms by (simp add: square_def)
next
  fix r assume r: "r < length A"
  then have rn: "r < n" using assms(1) by (simp add: square_def)
  have la: "length (A ! r) = n" using assms(1) r by (simp add: square_def)
  have lb: "length (B ! r) = n" using assms(1,2) r by (simp add: square_def)
  show "A ! r = B ! r"
    by (rule nth_equalityI) (use la lb rn assms(3) in \<open>auto simp: cell_def\<close>)
qed

lemma cm_loop_eq:
  "cm_loop n xs (A, B) =
     (if labels_ok n xs
      then Inr (accum A (sup_updates n xs), accum B (sup_updates_by n xs))
      else Inl IndexError)"
  by (induction n xs "(A, B)" arbitrary: A B rule: cm_loop.induct)
     (auto simp: index_eq sup_updates_def sup_updates_by_def labels_ok_def)

lemma rne_of_int: "rne (of_int m) = m"
  by (simp add: rne_def)

lemma pow2_pos: "0 < pow2 k"
  by (simp add: pow2_def)

lemma ilog2_of_nat: "0 < k \<Longrightarrow> ilog2 (of_nat k) = bitlen (int k) - 1"
  by (simp add: ilog2_def)

lemma f32_round_2_24: "f32_round 16777216 = Num 16777216"
  by code_simp

lemma round_mag_nat_lt:
  assumes "0 < k" "k < 2 ^ 24"
  shows "round_mag (of_nat k) = of_nat k"
proof -
  define e where "e = bitlen (int k) - 1"
  have b: "2 ^ nat e \<le> int k" "int k < 2 ^ nat (bitlen (int k))"
    using bitlen_bounds [of "int k"] assms(1) by (simp_all add: e_def)
  have e0: "0 \<le> e"
    using assms(1) bitlen_nonneg [of "int k"] bitlen_eq_zero_iff [of "int k"]
    by (simp add: e_def)
  have "int k < 2 ^ 24" using assms(2) by simp
  with b(1) have "(2::int) ^ nat e < 2 ^ 24" by (rule le_less_trans)
  then have "nat e < 24" by (rule power_less_imp_less_exp [rotated]) simp
  then have e23: "e \<le> 23" by linarith
  define j where "j = nat (23 - e)"
  have u: "pow2 (e - 23) = 1 / 2 ^ j"
    using e23 by (auto simp: pow2_def j_def)
  have q: "(of_nat k :: rat) / (1 / 2 ^ j) = of_int (int k * 2 ^ j)"
    by simp
  have r: "of_int (rne ((of_nat k :: rat) / (1 / 2 ^ j))) * (1 / 2 ^ j) = (of_nat k :: rat)"
    unfolding q rne_of_int by simp
  have m: "max e (- 126) = e" using e0 by simp
  have il: "ilog2 (of_nat k) = e" using assms(1) by (simp add: ilog2_of_nat e_def)
  show ?thesis
    unfolding round_mag_def Let_def il m u by (rule r)
qed

lemma f32_round_nat_lt:
  assumes "0 < k" "k < 2 ^ 24"
  shows "f32_round (of_nat k) = Num (of_nat k)"
proof -
  have lt: "(of_nat k :: rat) < 2 ^ 128"
  proof -
    have "(of_nat k :: rat) < of_nat (2 ^ 24)" using assms(2) by (simp only: of_nat_less_iff)
    also have "\<dots> < 2 ^ 128" by simp
    finally show ?thesis .
  qed
  show ?thesis
    using assms(1) lt by (simp add: f32_round_def round_mag_nat_lt [OF assms])
qed

lemma f32_round_nat:
  assumes "0 < k" "k \<le> 2 ^ 24"
  shows "f32_round (of_nat k) = Num (of_nat k)"
proof (cases "k = 2 ^ 24")
  case True
  then show ?thesis using f32_round_2_24 by simp
next
  case False
  then show ?thesis using assms f32_round_nat_lt by simp
qed

lemma fadd_sat: "fadd (Num 16777216) (Num 1) = Num 16777216"
  by code_simp

lemma unsup_loop_eq:
  "unsup_loop n xs (A, B) =
     (if labels_ok3 n xs
      then Inr (accum A (unsup_updates n xs), accum B (cnt_updates n xs))
      else Inl IndexError)"
  by (induction n xs "(A, B)" arbitrary: A B rule: unsup_loop.induct)
     (auto simp: index_eq unsup_updates_def cnt_updates_def labels_ok3_def)

lemma square_nth: "square n M \<Longrightarrow> r < n \<Longrightarrow> length (M ! r) = n"
  by (simp add: square_def)

lemma square_length: "square n M \<Longrightarrow> length M = n"
  by (simp add: square_def)

lemma cell_surprise_of:
  assumes "square n org" "square n cnt" "r < n" "c < n"
  shows "cell (surprise_of org cnt) r c =
    (if is_zero (cell org r c) then Num 0
     else fdiv (Num 1) (fdiv (cell org r c)
            (if is_zero (cell cnt r c) then Num 1 else cell cnt r c)))"
  using assms
  by (simp add: surprise_of_def Let_def masked_fill_def mat_div_def mat_recip_def
      eq_zero_mask_def cell_def square_nth square_length)

lemma square_iff_nth: "square n M \<longleftrightarrow> length M = n \<and> (\<forall>r<n. length (M ! r) = n)"
  by (auto simp: square_def all_set_conv_all_nth)

lemma square_surprise_of:
  assumes "square n org" "square n cnt"
  shows "square n (surprise_of org cnt)"
  using assms
  by (simp add: square_iff_nth surprise_of_def Let_def masked_fill_def mat_div_def
      mat_recip_def eq_zero_mask_def)

lemma cell_row_normalize:
  "square n M \<Longrightarrow> r < n \<Longrightarrow> c < n \<Longrightarrow>
   cell (row_normalize M) r c = fdiv (cell M r c) (row_sum (M ! r))"
  by (simp add: row_normalize_def cell_def square_def)

lemma square_row_normalize: "square n M \<Longrightarrow> square n (row_normalize M)"
  by (auto simp: row_normalize_def square_def)

lemma zip_take_min:
  "zip xs ys = zip (take (min (length xs) (length ys)) xs) (take (min (length xs) (length ys)) ys)"
  by (simp add: zip_eq_conv take_zip [symmetric] min_def)

lemma zip3_take_min:
  "zip3 xs ys zs = zip3 (take (min (length xs) (min (length ys) (length zs))) xs)
      (take (min (length xs) (min (length ys) (length zs))) ys)
      (take (min (length xs) (min (length ys) (length zs))) zs)"
  unfolding zip3_def by (simp add: take_zip [symmetric])

lemma foldl_fadd_zero: "\<forall>z \<in> set zs. is_zero z \<Longrightarrow> foldl fadd (Num 0) zs = Num 0"
  by (induction zs) (auto simp: is_zero_def fadd_def is_inf_def)

lemma landing_filter:
  assumes "labels_ok3 n xs"
  shows "map (\<lambda>(r', c', v). v) (filter (\<lambda>(r', c', v). r' = b \<and> c' = t) (unsup_updates n xs))
       = map (\<lambda>(t', p', m). m) (filter (\<lambda>(t', p', m). index n p' = Some b \<and> index n t' = Some t) xs)"
  using assms by (induction xs) (auto simp: unsup_updates_def index_eq labels_ok3_def)

lemma updates_in_range:
  "labels_ok3 n xs \<Longrightarrow> \<forall>(r', c', v) \<in> set (unsup_updates n xs). r' < n \<and> c' < n"
  "labels_ok3 n xs \<Longrightarrow> \<forall>(r', c', v) \<in> set (cnt_updates n xs). r' < n \<and> c' < n"
  by (auto simp: unsup_updates_def cnt_updates_def norm_index_less labels_ok3_def)

lemma unsup_loop_ok:
  "unsup_loop n xs (A, B) = Inr (ws, cnt) \<Longrightarrow> labels_ok3 n xs"
  "unsup_loop n xs (A, B) = Inr (ws, cnt) \<Longrightarrow> ws = accum A (unsup_updates n xs)"
  "unsup_loop n xs (A, B) = Inr (ws, cnt) \<Longrightarrow> cnt = accum B (cnt_updates n xs)"
  by (simp_all add: unsup_loop_eq split: if_splits)

lemma unsup_weighted_cell:
  assumes "unsup_loop n xs (zeros n, zeros n) = Inr (ws, cnt)" "b < n" "t < n"
  shows "cell ws b t = foldl fadd (Num 0)
     (map (\<lambda>(t', p', m). m) (filter (\<lambda>(t', p', m). index n p' = Some b \<and> index n t' = Some t) xs))"
proof -
  note v = unsup_loop_ok(1) [OF assms(1)] and ws = unsup_loop_ok(2) [OF assms(1)]
  have "cell (accum (zeros n) (unsup_updates n xs)) b t =
      foldl fadd (cell (zeros n) b t)
        (map (\<lambda>(r', c', v). v) (filter (\<lambda>(r', c', v). r' = b \<and> c' = t) (unsup_updates n xs)))"
    by (rule cell_accum [OF square_zeros updates_in_range(1) [OF v]])
  then show ?thesis
    unfolding ws landing_filter [OF v] by (simp only: cell_zeros [OF assms(2,3)])
qed

lemma unsup_loop_square:
  assumes "unsup_loop n xs (zeros n, zeros n) = Inr (ws, cnt)"
  shows "square n ws" "square n cnt"
  using assms by (auto simp: unsup_loop_eq square_accum square_zeros split: if_splits)

lemma unsup_surprise_cell:
  assumes "unsup_loop n (zip3 ts bs ms) (zeros n, zeros n) = Inr (ws, cnt)" "b < n" "t < n"
  shows "\<exists>s nm. get_unsup_confusion_matrix n ts bs ms = Inr (s, nm) \<and> s = surprise_of ws cnt
     \<and> nm = row_normalize s"
  using assms by (simp add: get_unsup_confusion_matrix_def Let_def)

subsection \<open>The zero mask of the unsupervised estimator\<close>

text \<open>
  Claim C2. In \<^verbatim>\<open>get_unsup_confusion_matrix\<close>, a cell \<open>[b][t]\<close> into which no example
  falls has \<open>surprise[b][t] = 0\<close>, whatever the marginals of the other examples are.
  In particular, with two classes and a bias sequence of in-range labels in which label 1
  never occurs, both entries of row 1 of the surprise matrix are 0.
\<close>

theorem zero_mask_never_occurred:
  "(get_unsup_confusion_matrix n ts bs ms = Inr (surprise, nm) \<and> b < n \<and> t < n \<and>
    (\<forall>(t', p', m) \<in> set (zip3 ts bs ms). \<not> (index n p' = Some b \<and> index n t' = Some t))
      \<longrightarrow> cell surprise b t = Num 0) \<and>
   (get_unsup_confusion_matrix 2 ts bs ms = Inr (surprise, nm) \<and>
    (\<forall>p \<in> set bs. 0 \<le> p \<and> p \<noteq> 1)
      \<longrightarrow> cell surprise 1 0 = Num 0 \<and> cell surprise 1 1 = Num 0)"
proof -
  have gen: "cell s b t = Num 0"
    if r: "get_unsup_confusion_matrix n ts bs ms = Inr (s, nm')" and bt: "b < n" "t < n"
      and no: "\<forall>(t', p', m) \<in> set (zip3 ts bs ms). \<not> (index n p' = Some b \<and> index n t' = Some t)"
    for n b t s nm'
  proof -
    obtain ws cnt where l: "unsup_loop n (zip3 ts bs ms) (zeros n, zeros n) = Inr (ws, cnt)"
      and s: "s = surprise_of ws cnt"
      using r by (auto simp: get_unsup_confusion_matrix_def Let_def split: sum.splits)
    have "filter (\<lambda>(t', p', m). index n p' = Some b \<and> index n t' = Some t) (zip3 ts bs ms) = []"
      using no by (auto simp: filter_empty_conv)
    then have "cell ws b t = Num 0"
      by (simp add: unsup_weighted_cell [OF l bt])
    then show ?thesis
      unfolding s
      by (simp add: cell_surprise_of [OF unsup_loop_square [OF l] bt] is_zero_def)
  qed
  have row1: "\<not> (index 2 p' = Some 1 \<and> index 2 t' = Some c)"
    if "(t', p', m) \<in> set (zip3 ts bs ms)" "\<forall>p \<in> set bs. 0 \<le> p \<and> p \<noteq> 1" for t' p' m c
  proof -
    have "p' \<in> set bs" using that(1) unfolding zip3_def
      by (meson set_zip_leftD set_zip_rightD)
    then have "0 \<le> p'" "p' \<noteq> 1" using that(2) by auto
    then show ?thesis by (auto simp: index_def)
  qed
  show ?thesis
  proof (intro conjI impI)
    assume "get_unsup_confusion_matrix n ts bs ms = Inr (surprise, nm) \<and> b < n \<and> t < n \<and>
      (\<forall>(t', p', m) \<in> set (zip3 ts bs ms). \<not> (index n p' = Some b \<and> index n t' = Some t))"
    then show "cell surprise b t = Num 0"
      using gen [of n surprise nm b t] by blast
  next
    assume a: "get_unsup_confusion_matrix 2 ts bs ms = Inr (surprise, nm) \<and>
      (\<forall>p \<in> set bs. 0 \<le> p \<and> p \<noteq> 1)"
    then have r: "\<forall>(t', p', m) \<in> set (zip3 ts bs ms). \<not> (index 2 p' = Some 1 \<and> index 2 t' = Some c)"
      for c using row1 by blast
    from a r [of 0] show "cell surprise 1 0 = Num 0"
      using gen [of 2 surprise nm 1 0] by simp
    from a r [of 1] show "cell surprise 1 1 = Num 0"
      using gen [of 2 surprise nm 1 1] by simp
  qed
qed

theorem zero_mask_never_occurred_witness:
  "get_unsup_confusion_matrix 2 [0, 1] [0, 0] [Num (1 / 2), Num (1 / 4)] =
     Inr ([[Num 2, Num 4], [Num 0, Num 0]],
          [[Num (11184811 / 33554432), Num (11184811 / 16777216)], [NaN, NaN]]) \<and>
   filter (\<lambda>(t', p', m). index 2 p' = Some 1 \<and> index 2 t' = Some 0)
     (zip3 [0, 1] [0, 0] [Num (1 / 2), Num (1 / 4)]) = [] \<and>
   filter (\<lambda>p. \<not> (0 \<le> p \<and> p \<noteq> 1)) [0, 0 :: int] = [] \<and>
   cell [[Num 2, Num 4], [Num 0, Num 0]] 1 0 = Num 0 \<and>
   cell [[Num 2, Num 4], [Num 0, Num 0]] 1 1 = Num 0"
proof -
  have e: "get_unsup_confusion_matrix 2 [0, 1] [0, 0] [Num (1 / 2), Num (1 / 4)] =
     Inr ([[Num 2, Num 4], [Num 0, Num 0]],
          [[Num (11184811 / 33554432), Num (11184811 / 16777216)], [NaN, NaN]])"
    by code_simp
  have h: "\<forall>(t', p', m) \<in> set (zip3 [0, 1] [0, 0] [Num (1 / 2), Num (1 / 4)]).
      \<not> (index 2 p' = Some 1 \<and> index 2 t' = Some 0)"
    by (simp add: zip3_def index_def)
  have p: "\<forall>p \<in> set [0, 0 :: int]. 0 \<le> p \<and> p \<noteq> 1"
    by simp
  from zero_mask_never_occurred [of 2 "[0, 1]" "[0, 0]" "[Num (1 / 2), Num (1 / 4)]"
      "[[Num 2, Num 4], [Num 0, Num 0]]"
      "[[Num (11184811 / 33554432), Num (11184811 / 16777216)], [NaN, NaN]]" 1 0] e h p
  show ?thesis by (simp add: zip3_def index_def)
qed

subsection \<open>The mask is keyed on the weighted sum\<close>

text \<open>
  Claim C8. In \<^verbatim>\<open>get_unsup_confusion_matrix\<close> the zero mask is
  \<^verbatim>\<open>confusion_matrix_org == 0\<close>, taken on the accumulated weighted sum and not on the
  count: a cell whose examples all carry marginal 0 has weighted sum 0 although its count
  is positive, and every cell whose weighted sum is zero ends with surprise 0, like a cell
  that never occurred.
\<close>

theorem zero_mask_keyed_on_weighted_sum:
  assumes "unsup_loop n (zip3 ts bs ms) (zeros n, zeros n) = Inr (weighted_sum, cnt)"
    and "b < n" and "t < n"
  shows "((\<forall>(t', p', m) \<in> set (zip3 ts bs ms).
            index n p' = Some b \<and> index n t' = Some t \<longrightarrow> is_zero m)
          \<longrightarrow> cell weighted_sum b t = Num 0) \<and>
         (is_zero (cell weighted_sum b t) \<longrightarrow>
            (\<exists>surprise nm. get_unsup_confusion_matrix n ts bs ms = Inr (surprise, nm) \<and>
               cell surprise b t = Num 0))"
proof (intro conjI impI)
  assume z: "\<forall>(t', p', m) \<in> set (zip3 ts bs ms).
      index n p' = Some b \<and> index n t' = Some t \<longrightarrow> is_zero m"
  have "\<forall>z \<in> set (map (\<lambda>(t', p', m). m)
      (filter (\<lambda>(t', p', m). index n p' = Some b \<and> index n t' = Some t) (zip3 ts bs ms))). is_zero z"
    using z by auto
  then show "cell weighted_sum b t = Num 0"
    unfolding unsup_weighted_cell [OF assms] by (rule foldl_fadd_zero)
next
  assume z: "is_zero (cell weighted_sum b t)"
  have "get_unsup_confusion_matrix n ts bs ms =
      Inr (surprise_of weighted_sum cnt, row_normalize (surprise_of weighted_sum cnt))"
    using assms(1) by (simp add: get_unsup_confusion_matrix_def Let_def)
  moreover have "cell (surprise_of weighted_sum cnt) b t = Num 0"
    using z by (simp add: cell_surprise_of [OF unsup_loop_square [OF assms(1)] assms(2,3)])
  ultimately show "\<exists>surprise nm. get_unsup_confusion_matrix n ts bs ms = Inr (surprise, nm) \<and>
               cell surprise b t = Num 0"
    by blast
qed

theorem zero_mask_keyed_on_weighted_sum_witness:
  "unsup_loop 2 (zip3 [0, 0] [1, 1] [Num 0, Num 0]) (zeros 2, zeros 2) =
     Inr ([[Num 0, Num 0], [Num 0, Num 0]], [[Num 0, Num 0], [Num 2, Num 0]]) \<and>
   (1::nat) < 2 \<and> (0::nat) < 2 \<and>
   filter (\<lambda>(t', p', m). index 2 p' = Some 1 \<and> index 2 t' = Some 0 \<and> \<not> is_zero m)
     (zip3 [0, 0] [1, 1] [Num 0, Num 0]) = [] \<and>
   cell [[Num 0, Num 0], [Num 2, Num 0]] 1 0 = Num 2 \<and>
   is_zero (cell [[Num 0, Num 0], [Num 0, Num 0]] 1 0) \<and>
   get_unsup_confusion_matrix 2 [0, 0] [1, 1] [Num 0, Num 0] =
     Inr ([[Num 0, Num 0], [Num 0, Num 0]], [[NaN, NaN], [NaN, NaN]]) \<and>
   cell [[Num 0, Num 0], [Num 0, Num 0]] 1 0 = Num 0"
proof -
  have l: "unsup_loop 2 (zip3 [0, 0] [1, 1] [Num 0, Num 0]) (zeros 2, zeros 2) =
     Inr ([[Num 0, Num 0], [Num 0, Num 0]], [[Num 0, Num 0], [Num 2, Num 0]])"
    by code_simp
  have g: "get_unsup_confusion_matrix 2 [0, 0] [1, 1] [Num 0, Num 0] =
     Inr ([[Num 0, Num 0], [Num 0, Num 0]], [[NaN, NaN], [NaN, NaN]])"
    by code_simp
  have b: "(1::nat) < 2" and t: "(0::nat) < 2" by simp_all
  have f: "filter (\<lambda>(t', p', m). index 2 p' = Some 1 \<and> index 2 t' = Some 0 \<and> \<not> is_zero m)
     (zip3 [0, 0] [1, 1] [Num 0, Num 0]) = []"
    by (simp add: zip3_def is_zero_def)
  have c: "cell [[Num 0, Num 0], [Num 2, Num 0]] 1 0 = Num 2"
    by (simp add: cell_def)
  have z: "is_zero (cell [[Num 0, Num 0], [Num 0, Num 0]] 1 0)"
    by (simp add: cell_def is_zero_def)
  from zero_mask_keyed_on_weighted_sum [OF l b t] z
  obtain s nm where "get_unsup_confusion_matrix 2 [0, 0] [1, 1] [Num 0, Num 0] = Inr (s, nm)"
    and "cell s 1 0 = Num 0"
    by blast
  with g have r: "cell [[Num 0, Num 0], [Num 0, Num 0]] 1 0 = Num 0"
    by simp
  show ?thesis
    by (intro conjI) (rule l b t f c z g r)+
qed

subsection \<open>Sequences of unequal lengths\<close>

text \<open>
  Claim C9. With input sequences of unequal lengths neither function raises an error for
  that reason: \<^verbatim>\<open>zip\<close> stops at the shortest sequence, so both functions return what they
  return on the sequences cut to the shortest length, the tail has no effect on any
  returned matrix, and the call returns normally as soon as the labels that are
  processed are valid indices.
\<close>

theorem zip_truncation:
  "get_confusion_matrix n ts bs =
     get_confusion_matrix n (take (min (length ts) (length bs)) ts)
       (take (min (length ts) (length bs)) bs) \<and>
   get_unsup_confusion_matrix n ts bs ms =
     get_unsup_confusion_matrix n
       (take (min (length ts) (min (length bs) (length ms))) ts)
       (take (min (length ts) (min (length bs) (length ms))) bs)
       (take (min (length ts) (min (length bs) (length ms))) ms) \<and>
   ((\<forall>i < min (length ts) (length bs). index n (ts ! i) \<noteq> None \<and> index n (bs ! i) \<noteq> None)
      \<longrightarrow> (\<exists>r. get_confusion_matrix n ts bs = Inr r)) \<and>
   ((\<forall>i < min (length ts) (min (length bs) (length ms)).
        index n (ts ! i) \<noteq> None \<and> index n (bs ! i) \<noteq> None)
      \<longrightarrow> (\<exists>r. get_unsup_confusion_matrix n ts bs ms = Inr r))"
proof (intro conjI impI)
  show "get_confusion_matrix n ts bs =
     get_confusion_matrix n (take (min (length ts) (length bs)) ts)
       (take (min (length ts) (length bs)) bs)"
    unfolding get_confusion_matrix_def by (subst zip_take_min) (rule refl)
  show "get_unsup_confusion_matrix n ts bs ms =
     get_unsup_confusion_matrix n
       (take (min (length ts) (min (length bs) (length ms))) ts)
       (take (min (length ts) (min (length bs) (length ms))) bs)
       (take (min (length ts) (min (length bs) (length ms))) ms)"
    unfolding get_unsup_confusion_matrix_def by (subst zip3_take_min) (rule refl)
next
  assume a: "\<forall>i < min (length ts) (length bs). index n (ts ! i) \<noteq> None \<and> index n (bs ! i) \<noteq> None"
  have "labels_ok n (zip ts bs)"
    using a by (auto simp: labels_ok_def set_zip index_eq split: if_splits)
  then show "\<exists>r. get_confusion_matrix n ts bs = Inr r"
    by (simp add: get_confusion_matrix_def cm_loop_eq)
next
  assume a: "\<forall>i < min (length ts) (min (length bs) (length ms)).
        index n (ts ! i) \<noteq> None \<and> index n (bs ! i) \<noteq> None"
  have "labels_ok3 n (zip3 ts bs ms)"
    using a by (auto simp: labels_ok3_def zip3_def set_zip index_eq split: if_splits)
  then show "\<exists>r. get_unsup_confusion_matrix n ts bs ms = Inr r"
    by (simp add: get_unsup_confusion_matrix_def unsup_loop_eq Let_def)
qed

theorem zip_truncation_witness:
  "get_confusion_matrix 2 [0, 1, 5] [1, 0] = get_confusion_matrix 2 [0, 1] [1, 0] \<and>
   get_unsup_confusion_matrix 2 [0, 1, 5] [1, 0] [Num 1] =
     get_unsup_confusion_matrix 2 [0] [1] [Num 1] \<and>
   index 2 5 = None \<and> index 2 0 \<noteq> None \<and> index 2 1 \<noteq> None \<and>
   get_confusion_matrix 2 [0, 1, 5] [1, 0] =
     Inr ([[Num 0, Num 1], [Num 1, Num 0]], [[Num 0, Num 1], [Num 1, Num 0]],
          [[Num 0, Num 1], [Num 1, Num 0]]) \<and>
   get_unsup_confusion_matrix 2 [0, 1, 5] [1, 0] [Num 1] =
     Inr ([[Num 0, Num 0], [Num 1, Num 0]], [[NaN, NaN], [Num 1, Num 0]])"
proof -
  have a: "get_confusion_matrix 2 [0, 1] [1, 0] =
     Inr ([[Num 0, Num 1], [Num 1, Num 0]], [[Num 0, Num 1], [Num 1, Num 0]],
          [[Num 0, Num 1], [Num 1, Num 0]])"
    by code_simp
  have b: "get_unsup_confusion_matrix 2 [0] [1] [Num 1] =
     Inr ([[Num 0, Num 0], [Num 1, Num 0]], [[NaN, NaN], [Num 1, Num 0]])"
    by code_simp
  have i: "index 2 5 = None" "index 2 0 \<noteq> None" "index 2 1 \<noteq> None"
    by (simp_all add: index_def)
  have t: "get_confusion_matrix 2 [0, 1, 5] [1, 0] = get_confusion_matrix 2 [0, 1] [1, 0]"
    "get_unsup_confusion_matrix 2 [0, 1, 5] [1, 0] [Num 1] =
     get_unsup_confusion_matrix 2 [0] [1] [Num 1]"
    using zip_truncation [of 2 "[0, 1, 5]" "[1, 0]" "[Num 1]"] by simp_all
  show ?thesis
    by (intro conjI) (rule t i | simp only: t a b)+
qed

lemma sup_updates_by_swap: "sup_updates_by n (zip ts bs) = sup_updates n (zip bs ts)"
proof -
  have "zip bs ts = map (\<lambda>(x, y). (y, x)) (zip ts bs)" by (rule zip_commute)
  then show ?thesis
    by (simp add: sup_updates_def sup_updates_by_def case_prod_unfold)
qed

lemma labels_ok_swap: "labels_ok n (zip bs ts) = labels_ok n (zip ts bs)"
  unfolding labels_ok_def by (subst zip_commute) auto

subsection \<open>The orientation of the third matrix\<close>

text \<open>
  Claim C6. The third matrix returned by \<^verbatim>\<open>get_confusion_matrix\<close> is the row
  normalisation of the accumulator filled at \<open>[target][bias]\<close>: it is the second matrix of
  the call with targets and biases exchanged. It is not the transpose of the second matrix:
  on targets \<open>[0, 0, 1]\<close> and biases \<open>[0, 1, 1]\<close> the two differ.
\<close>

theorem normalized_by_swapped_orientation:
  "cm_normalized_by (get_confusion_matrix n ts bs) = cm_normalized (get_confusion_matrix n bs ts) \<and>
   cm_normalized_by (get_confusion_matrix 2 [0, 0, 1] [0, 1, 1]) =
     Inr [[Num (1 / 2), Num (1 / 2)], [Num 0, Num 1]] \<and>
   map_sum id transpose (cm_normalized (get_confusion_matrix 2 [0, 0, 1] [0, 1, 1])) =
     Inr [[Num 1, Num (1 / 2)], [Num 0, Num (1 / 2)]] \<and>
   cm_normalized_by (get_confusion_matrix 2 [0, 0, 1] [0, 1, 1]) \<noteq>
     map_sum id transpose (cm_normalized (get_confusion_matrix 2 [0, 0, 1] [0, 1, 1]))"
proof -
  have g: "cm_normalized_by (get_confusion_matrix n ts bs) =
      cm_normalized (get_confusion_matrix n bs ts)"
    by (simp add: cm_normalized_by_def cm_normalized_def get_confusion_matrix_def cm_loop_eq
        labels_ok_swap [of n bs ts] sup_updates_by_swap)
  have e: "get_confusion_matrix 2 [0, 0, 1] [0, 1, 1] =
      Inr ([[Num 1, Num 0], [Num 1, Num 1]],
           [[Num 1, Num 0], [Num (1 / 2), Num (1 / 2)]],
           [[Num (1 / 2), Num (1 / 2)], [Num 0, Num 1]])"
    by code_simp
  have t: "transpose [[Num 1, Num 0], [Num (1 / 2), Num (1 / 2)]] =
      [[Num 1, Num (1 / 2)], [Num 0, Num (1 / 2)]]"
    by code_simp
  show ?thesis
    by (intro conjI, rule g) (simp_all add: e cm_normalized_by_def cm_normalized_def t)
qed

lemma const_updates:
  assumes "\<forall>(r', c', v) \<in> set us. v = w"
  shows "map (\<lambda>(r', c', v). v) (filter P us) = replicate (length (filter P us)) w"
  using assms by (induction us) auto

lemma accum_mset_const:
  assumes "mset us' = mset us" "\<forall>(r', c', v) \<in> set us. v = w"
    "\<forall>(r', c', v) \<in> set us. r' < n \<and> c' < n" "square n M"
  shows "accum M us' = accum M us"
proof (rule matrix_eqI [of n])
  have s: "set us' = set us" using assms(1) by (rule mset_eq_setD)
  show "square n (accum M us')" "square n (accum M us)"
    using assms(4) by (simp_all add: square_accum)
  fix r c assume "r < n" "c < n"
  have l: "length (filter P us') = length (filter P us)" for P
    using assms(1) by (metis mset_filter size_mset)
  show "cell (accum M us') r c = cell (accum M us) r c"
    using assms(2,3)
    by (simp only: cell_accum [OF assms(4)] s const_updates [of _ w] l)
qed

subsection \<open>Order of the examples\<close>

text \<open>
  Claim C7, as amended. For every permutation of the examples (targets and biases permuted
  together, that is, the same multiset of pairs) \<^verbatim>\<open>get_confusion_matrix\<close> returns exactly
  the same result. The claim as stated also covers \<^verbatim>\<open>get_unsup_confusion_matrix\<close>, where it
  fails: the marginals are added in float32 in the order given, and float32 addition is
  not associative (see \<open>unsup_order_dependent\<close> below).
\<close>

theorem order_independent_supervised:
  assumes "mset (zip ts' bs') = mset (zip ts bs)"
  shows "get_confusion_matrix n ts' bs' = get_confusion_matrix n ts bs"
proof -
  have "set (zip ts' bs') = set (zip ts bs)" using assms by (rule mset_eq_setD)
  then have l: "labels_ok n (zip ts' bs') = labels_ok n (zip ts bs)"
    by (simp add: labels_ok_def)
  have m1: "mset (sup_updates n (zip ts' bs')) = mset (sup_updates n (zip ts bs))"
    and m2: "mset (sup_updates_by n (zip ts' bs')) = mset (sup_updates_by n (zip ts bs))"
    by (simp_all only: sup_updates_def sup_updates_by_def mset_map assms)
  show ?thesis
  proof (cases "labels_ok n (zip ts bs)")
    case True
    have c: "\<forall>(r', c', v) \<in> set (sup_updates n (zip ts bs)). v = Num 1"
      "\<forall>(r', c', v) \<in> set (sup_updates_by n (zip ts bs)). v = Num 1"
      by (auto simp: sup_updates_def sup_updates_by_def)
    have r: "\<forall>(r', c', v) \<in> set (sup_updates n (zip ts bs)). r' < n \<and> c' < n"
      "\<forall>(r', c', v) \<in> set (sup_updates_by n (zip ts bs)). r' < n \<and> c' < n"
      using True by (auto simp: sup_updates_def sup_updates_by_def norm_index_less labels_ok_def)
    show ?thesis
      using True
      by (simp add: get_confusion_matrix_def cm_loop_eq l
          accum_mset_const [OF m1 c(1) r(1) square_zeros]
          accum_mset_const [OF m2 c(2) r(2) square_zeros])
  next
    case False
    then show ?thesis
      by (simp add: get_confusion_matrix_def cm_loop_eq l)
  qed
qed

theorem order_independent_supervised_witness:
  "mset (zip [1, 0, 0] [0, 0, 1 :: int]) = mset (zip [0, 0, 1] [0, 1, 0 :: int]) \<and>
   get_confusion_matrix 2 [1, 0, 0] [0, 0, 1] = get_confusion_matrix 2 [0, 0, 1] [0, 1, 0] \<and>
   get_confusion_matrix 2 [0, 0, 1] [0, 1, 0] =
     Inr ([[Num 1, Num 1], [Num 1, Num 0]],
          [[Num (1 / 2), Num (1 / 2)], [Num 1, Num 0]],
          [[Num (1 / 2), Num (1 / 2)], [Num 1, Num 0]])"
proof -
  have m: "mset (zip [1, 0, 0] [0, 0, 1 :: int]) = mset (zip [0, 0, 1] [0, 1, 0 :: int])"
    by (simp add: add_mset_commute)
  have e: "get_confusion_matrix 2 [0, 0, 1] [0, 1, 0] =
     Inr ([[Num 1, Num 1], [Num 1, Num 0]],
          [[Num (1 / 2), Num (1 / 2)], [Num 1, Num 0]],
          [[Num (1 / 2), Num (1 / 2)], [Num 1, Num 0]])"
    by code_simp
  show ?thesis
    by (intro conjI) (rule m order_independent_supervised [OF m] e)+
qed

text \<open>
  The same three examples of cell \<open>[0][0]\<close>, with marginals \<open>1\<close>, \<open>2\<^sup>-\<^sup>2\<^sup>4\<close> and
  \<open>2\<^sup>-\<^sup>2\<^sup>4\<close>, in two orders: the weighted sum is \<open>1\<close> in the first order (each small
  marginal is rounded away) and \<open>1 + 2\<^sup>-\<^sup>2\<^sup>3\<close> in the second, and the surprise matrices
  differ.
\<close>

theorem unsup_order_dependent:
  "get_unsup_confusion_matrix 1 [0, 0, 0] [0, 0, 0] [Num 1, Num (1 / 16777216), Num (1 / 16777216)] =
     Inr ([[Num 3]], [[Num 1]]) \<and>
   get_unsup_confusion_matrix 1 [0, 0, 0] [0, 0, 0] [Num (1 / 16777216), Num (1 / 16777216), Num 1] =
     Inr ([[Num (12582911 / 4194304)]], [[Num 1]])"
  by (rule conjI; code_simp)

end
